theory Spec2Isabelle
  imports Main
begin

section \<open>The light-cycle bot of src/client/andrei.cpp\<close>

text \<open>
  The bot is the class \<open>BotClient\<close>. Each tick it reads the board (\<open>state\<close>) and its
  own player (\<open>my_player\<close>) and answers with one of four directions. The member
  functions \<open>is_valid_move\<close>, \<open>flood_fill\<close>, \<open>evaluate_move\<close> and \<open>decide_move\<close> are
  embedded below, in the order of the source; they take the object as their first
  argument. A function that can index a vector returns \<open>error + result\<close>: an index outside
  the vector yields \<open>Inl OutOfBounds\<close> (in C++ the behaviour is undefined there). C++
  \<open>int\<close> is modelled as \<open>int\<close>: the scores are bounded by the number of cells and by
  \<open>4 * 10\<close>, and a coordinate one step beyond a representable position is outside every
  grid whether it wraps or not. The network connection and the debug log are left out.
\<close>

subsection \<open>Data from the headers\<close>

type_synonym Vector2i = "int \<times> int"

definition vadd :: "Vector2i \<Rightarrow> Vector2i \<Rightarrow> Vector2i" where
  "vadd a b = (fst a + fst b, snd a + snd b)"

text \<open>
  Modelled from the spec: \<open>utils.h\<close> is missing. The enumeration \<open>Direction\<close> has exactly the
  four variants North, East, South, West, in this order, with the displacements
  \<open>(0,-1), (1,0), (0,1), (-1,0)\<close>.
\<close>

datatype Direction = north | east | south | west

fun getDirectionVector :: "Direction \<Rightarrow> Vector2i" where
  "getDirectionVector north = (0, -1)"
| "getDirectionVector east = (1, 0)"
| "getDirectionVector south = (0, 1)"
| "getDirectionVector west = (-1, 0)"

fun getDirectionValue :: "Direction \<Rightarrow> int" where
  "getDirectionValue north = 0"
| "getDirectionValue east = 1"
| "getDirectionValue south = 2"
| "getDirectionValue west = 3"

definition getDirectionFromValue :: "int \<Rightarrow> Direction option" where
  "getDirectionFromValue i =
     (if i = 0 then Some north else if i = 1 then Some east
      else if i = 2 then Some south else if i = 3 then Some west else None)"

datatype error = OutOfBounds | BadDirection | LengthError

text \<open>
  Modelled from the spec: \<open>api.h\<close> is missing. A player has a name and a position; the
  game state has the grid's width and height and one cell value per position, \<open>0\<close> for an
  empty cell. \<open>isInsideGrid\<close> tests \<open>[0,W) x [0,H)\<close>; \<open>getGridCell\<close> reads a cell, and a
  read outside the grid is an out-of-bounds access.
\<close>

record Player =
  player_name :: string
  position :: Vector2i

record GameState =
  gridWidth :: int
  gridHeight :: int
  grid :: "Vector2i \<Rightarrow> nat"
  players :: "Player list"

definition isInsideGrid :: "GameState \<Rightarrow> Vector2i \<Rightarrow> bool" where
  "isInsideGrid st p \<longleftrightarrow>
     0 \<le> fst p \<and> fst p < gridWidth st \<and> 0 \<le> snd p \<and> snd p < gridHeight st"

definition getGridCell :: "GameState \<Rightarrow> Vector2i \<Rightarrow> error + nat" where
  "getGridCell st p = (if isInsideGrid st p then Inr (grid st p) else Inl OutOfBounds)"

subsection \<open>The class\<close>

text \<open>
  The members of \<open>BotClient\<close>, the connection apart. \<open>rng\<close> is the state of the
  \<open>std::mt19937\<close> that the constructor seeds.
\<close>

record BotClient =
  name :: string
  state :: GameState
  my_player :: Player
  rng :: "nat list"

definition directionVectors :: "Vector2i list" where
  "directionVectors = [(0, -1), (1, 0), (0, 1), (-1, 0)]"

subsection \<open>\<open>is_valid_move\<close>\<close>

definition is_valid_move :: "BotClient \<Rightarrow> Direction \<Rightarrow> error + bool" where
  "is_valid_move b direction =
     (let new_pos = vadd (position (my_player b)) (getDirectionVector direction) in
      if \<not> isInsideGrid (state b) new_pos then Inr False
      else (case getGridCell (state b) new_pos of
              Inl e \<Rightarrow> Inl e
            | Inr c \<Rightarrow> if c \<noteq> 0 then Inr False else Inr True))"

subsection \<open>The visited array\<close>

text \<open>
  \<open>std::vector<std::vector<bool>>\<close>, indexed \<open>visited[x][y]\<close>.
\<close>

type_synonym visited = "bool list list"

definition in_visited :: "visited \<Rightarrow> Vector2i \<Rightarrow> bool" where
  "in_visited vis p \<longleftrightarrow>
     0 \<le> fst p \<and> nat (fst p) < length vis \<and>
     0 \<le> snd p \<and> nat (snd p) < length (vis ! nat (fst p))"

definition visited_get :: "visited \<Rightarrow> Vector2i \<Rightarrow> error + bool" where
  "visited_get vis p =
     (if in_visited vis p then Inr (vis ! nat (fst p) ! nat (snd p)) else Inl OutOfBounds)"

definition visited_set :: "visited \<Rightarrow> Vector2i \<Rightarrow> error + visited" where
  "visited_set vis p =
     (if in_visited vis p
      then Inr (vis[nat (fst p) := (vis ! nat (fst p))[nat (snd p) := True]])
      else Inl OutOfBounds)"

subsection \<open>\<open>flood_fill\<close>\<close>

text \<open>
  The \<open>for\<close> loop over \<open>directionVectors\<close> inside the \<open>while\<close> loop: the queue and the
  visited array are threaded through; \<open>&&\<close> evaluates left to right and stops early.
\<close>

fun flood_neighbours ::
  "BotClient \<Rightarrow> Vector2i \<Rightarrow> Vector2i list \<Rightarrow> Vector2i list \<times> visited
     \<Rightarrow> error + (Vector2i list \<times> visited)" where
  "flood_neighbours b current [] (q, vis) = Inr (q, vis)"
| "flood_neighbours b current (dir # dirs) (q, vis) =
     (let newPos = vadd current dir in
      if \<not> isInsideGrid (state b) newPos then flood_neighbours b current dirs (q, vis)
      else (case getGridCell (state b) newPos of
        Inl e \<Rightarrow> Inl e
      | Inr c \<Rightarrow>
          if c \<noteq> 0 then flood_neighbours b current dirs (q, vis)
          else (case visited_get vis newPos of
            Inl e \<Rightarrow> Inl e
          | Inr seen \<Rightarrow>
              if seen then flood_neighbours b current dirs (q, vis)
              else (case visited_set vis newPos of
                Inl e \<Rightarrow> Inl e
              | Inr vis' \<Rightarrow> flood_neighbours b current dirs (q @ [newPos], vis')))))"

text \<open>The number of entries of the visited array that are still false.\<close>

definition unvisited :: "visited \<Rightarrow> nat" where
  "unvisited vis = sum_list (map (\<lambda>row. length (filter Not row)) vis)"

lemma unvisited_set:
  assumes "in_visited vis p" and "\<not> vis ! nat (fst p) ! nat (snd p)"
  shows "Suc (unvisited (vis[nat (fst p) := (vis ! nat (fst p))[nat (snd p) := True]]))
           = unvisited vis"
proof -
  define i where "i = nat (fst p)"
  define j where "j = nat (snd p)"
  define row where "row = vis ! i"
  have i: "i < length vis" and j: "j < length row"
    using assms(1) by (simp_all add: in_visited_def i_def j_def row_def)
  have nj: "\<not> row ! j" using assms(2) by (simp add: i_def j_def row_def)
  have row: "row = take j row @ row ! j # drop (Suc j) row"
    using j by (simp add: id_take_nth_drop)
  have upd: "row[j := True] = take j row @ True # drop (Suc j) row"
    using j by (simp add: upd_conv_take_nth_drop)
  have "length (filter Not row)
          = length (filter Not (take j row @ row ! j # drop (Suc j) row))"
    using row by simp
  then have cnt: "Suc (length (filter Not (row[j := True]))) = length (filter Not row)"
    using nj by (simp add: upd)
  have vis: "vis = take i vis @ row # drop (Suc i) vis"
    using i by (simp add: id_take_nth_drop row_def)
  have visu: "vis[i := row[j := True]] = take i vis @ row[j := True] # drop (Suc i) vis"
    using i by (simp add: upd_conv_take_nth_drop)
  have "unvisited vis = unvisited (take i vis @ row # drop (Suc i) vis)"
    using vis by simp
  then have "Suc (unvisited (vis[i := row[j := True]])) = unvisited vis"
    using cnt by (simp add: visu unvisited_def)
  then show ?thesis by (simp add: i_def j_def row_def)
qed

lemma flood_neighbours_measure:
  "flood_neighbours b current dirs (q, vis) = Inr (q', vis')
     \<Longrightarrow> length q' + unvisited vis' = length q + unvisited vis"
proof (induction dirs arbitrary: q vis)
  case Nil
  then show ?case by simp
next
  case (Cons dir dirs)
  show ?case
  proof (cases "isInsideGrid (state b) (vadd current dir)
                  \<and> grid (state b) (vadd current dir) = 0
                  \<and> visited_get vis (vadd current dir) = Inr False")
    case True
    then have iv: "in_visited vis (vadd current dir)"
      and nv: "\<not> vis ! nat (fst (vadd current dir)) ! nat (snd (vadd current dir))"
      by (auto simp: visited_get_def split: if_splits)
    let ?vis = "vis[nat (fst (vadd current dir)) :=
                  (vis ! nat (fst (vadd current dir)))[nat (snd (vadd current dir)) := True]]"
    from Cons.prems True iv
    have "flood_neighbours b current dirs (q @ [vadd current dir], ?vis) = Inr (q', vis')"
      by (simp add: getGridCell_def visited_set_def Let_def)
    from Cons.IH [OF this] unvisited_set [OF iv nv] show ?thesis by simp
  next
    case False
    with Cons.prems have "flood_neighbours b current dirs (q, vis) = Inr (q', vis')"
      by (auto simp: getGridCell_def Let_def split: if_splits sum.splits)
    from Cons.IH [OF this] show ?thesis .
  qed
qed

text \<open>
  The \<open>while\<close> loop: pop the front of the queue, count it, visit its neighbours. Every
  iteration removes one queue entry and turns one false entry of the visited array into
  true for each entry it adds, which is why the loop ends.
\<close>

function flood_loop ::
  "BotClient \<Rightarrow> Vector2i list \<Rightarrow> visited \<Rightarrow> int \<Rightarrow> error + (int \<times> visited)" where
  "flood_loop b [] vis area = Inr (area, vis)"
| "flood_loop b (current # rest) vis area =
     (case flood_neighbours b current directionVectors (rest, vis) of
        Inl e \<Rightarrow> Inl e
      | Inr (q', vis') \<Rightarrow> flood_loop b q' vis' (area + 1))"
  by pat_completeness auto
termination
proof (relation "measure (\<lambda>(b, q, vis, area). length q + unvisited vis)")
  show "wf (measure (\<lambda>(b, q, vis, area). length q + unvisited vis))" by simp
next
  fix b :: "(unit) BotClient_scheme" and current rest vis and area :: int and x2 q' vis'
  assume "flood_neighbours b current directionVectors (rest, vis) = Inr x2"
    and "(q', vis') = x2"
  then have "flood_neighbours b current directionVectors (rest, vis) = Inr (q', vis')"
    by simp
  from flood_neighbours_measure [OF this]
  show "((b, q', vis', area + 1), (b, current # rest, vis, area))
          \<in> measure (\<lambda>(b, q, vis, area). length q + unvisited vis)"
    by simp
qed

definition flood_fill :: "BotClient \<Rightarrow> Vector2i \<Rightarrow> visited \<Rightarrow> error + (int \<times> visited)" where
  "flood_fill b position' vis =
     (case visited_set vis position' of
        Inl e \<Rightarrow> Inl e
      | Inr vis' \<Rightarrow> flood_loop b [position'] vis' 0)"

subsection \<open>\<open>evaluate_move\<close>\<close>

text \<open>
  The two nested \<open>for\<close> loops that mark the occupied cells in the fresh visited array:
  \<open>seed_column\<close> is the loop over \<open>y\<close>, \<open>seed_visited\<close> the loop over \<open>x\<close>.
\<close>

fun seed_column :: "BotClient \<Rightarrow> int \<Rightarrow> int list \<Rightarrow> visited \<Rightarrow> error + visited" where
  "seed_column b x [] vis = Inr vis"
| "seed_column b x (y # ys) vis =
     (case getGridCell (state b) (x, y) of
        Inl e \<Rightarrow> Inl e
      | Inr c \<Rightarrow>
          if c \<noteq> 0
          then (case visited_set vis (x, y) of
                  Inl e \<Rightarrow> Inl e
                | Inr vis' \<Rightarrow> seed_column b x ys vis')
          else seed_column b x ys vis)"

fun seed_visited :: "BotClient \<Rightarrow> int list \<Rightarrow> visited \<Rightarrow> error + visited" where
  "seed_visited b [] vis = Inr vis"
| "seed_visited b (x # xs) vis =
     (case seed_column b x [0 .. gridHeight (state b) - 1] vis of
        Inl e \<Rightarrow> Inl e
      | Inr vis' \<Rightarrow> seed_visited b xs vis')"

text \<open>
  The visited array as \<open>evaluate_move\<close> builds it: \<open>gridWidth\<close> columns of \<open>gridHeight\<close>
  entries, all false, then the occupied cells marked. The constructor of a vector throws
  for a negative size. (\<open>evaluate_move\<close> builds the array only after \<open>is_valid_move\<close> has
  found a cell inside the grid, so there both dimensions are positive.)
\<close>

definition init_visited :: "BotClient \<Rightarrow> error + visited" where
  "init_visited b =
     (if gridWidth (state b) < 0 \<or> gridHeight (state b) < 0 then Inl LengthError
      else seed_visited b [0 .. gridWidth (state b) - 1]
             (replicate (nat (gridWidth (state b)))
                (replicate (nat (gridHeight (state b))) False)))"

text \<open>The loop that counts the blocked neighbours of the new position.\<close>

fun count_risk :: "BotClient \<Rightarrow> Vector2i \<Rightarrow> Vector2i list \<Rightarrow> int \<Rightarrow> error + int" where
  "count_risk b new_pos [] risk = Inr risk"
| "count_risk b new_pos (dir # dirs) risk =
     (let adjacentPos = vadd new_pos dir in
      if \<not> isInsideGrid (state b) adjacentPos then count_risk b new_pos dirs (risk + 1)
      else (case getGridCell (state b) adjacentPos of
              Inl e \<Rightarrow> Inl e
            | Inr c \<Rightarrow>
                if c \<noteq> 0 then count_risk b new_pos dirs (risk + 1)
                else count_risk b new_pos dirs risk))"

definition evaluate_move :: "BotClient \<Rightarrow> Direction \<Rightarrow> error + int" where
  "evaluate_move b direction =
     (case is_valid_move b direction of
        Inl e \<Rightarrow> Inl e
      | Inr ok \<Rightarrow>
          if \<not> ok then Inr (- 1)
          else
            (let new_pos = vadd (position (my_player b)) (getDirectionVector direction) in
             case init_visited b of
               Inl e \<Rightarrow> Inl e
             | Inr vis \<Rightarrow>
                 (case flood_fill b new_pos vis of
                    Inl e \<Rightarrow> Inl e
                  | Inr (area, vis') \<Rightarrow>
                      (case count_risk b new_pos directionVectors 0 of
                         Inl e \<Rightarrow> Inl e
                       | Inr risk \<Rightarrow> Inr (area - risk * 10)))))"

subsection \<open>\<open>decide_move\<close>\<close>

text \<open>\<open>std::numeric_limits<int>::min()\<close> for a 32-bit \<open>int\<close>.\<close>

definition INT_MIN :: int where
  "INT_MIN = - 2147483648"

text \<open>
  The loop \<open>for (int i = 0; i < 4; ++i)\<close>, over the values of \<open>i\<close> it takes, with the
  running \<open>max_score\<close> and \<open>best_direction\<close>. The debug log lines are left out.
\<close>

fun decide_loop ::
  "BotClient \<Rightarrow> int list \<Rightarrow> int \<times> Direction \<Rightarrow> error + (int \<times> Direction)" where
  "decide_loop b [] (max_score, best_direction) = Inr (max_score, best_direction)"
| "decide_loop b (i # rest) (max_score, best_direction) =
     (case getDirectionFromValue i of
        None \<Rightarrow> Inl BadDirection
      | Some direction \<Rightarrow>
          (case evaluate_move b direction of
             Inl e \<Rightarrow> Inl e
           | Inr score \<Rightarrow>
               if score > max_score then decide_loop b rest (score, direction)
               else decide_loop b rest (max_score, best_direction)))"

definition decide_move :: "BotClient \<Rightarrow> error + Direction" where
  "decide_move b =
     (case decide_loop b [0, 1, 2, 3] (INT_MIN, north) of
        Inl e \<Rightarrow> Inl e
      | Inr (max_score, best_direction) \<Rightarrow> Inr best_direction)"

section \<open>What the functions are specified against\<close>

text \<open>
  A visited array fits a grid when it has one column per \<open>x\<close> and one entry per \<open>y\<close>.
\<close>

definition wf_visited :: "GameState \<Rightarrow> visited \<Rightarrow> bool" where
  "wf_visited st vis \<longleftrightarrow>
     length vis = nat (gridWidth st) \<and> list_all (\<lambda>col. length col = nat (gridHeight st)) vis"

definition marked :: "visited \<Rightarrow> Vector2i \<Rightarrow> bool" where
  "marked vis p \<longleftrightarrow> visited_get vis p = Inr True"

text \<open>
  A cell is empty for the fill when it is inside the grid, not occupied and not marked in
  the visited array the caller passes. Two cells are adjacent when they differ by one of
  the four unit displacements. \<open>region st vis s\<close> is what can be reached from \<open>s\<close> by steps
  to adjacent empty cells: for an empty \<open>s\<close>, the connected component of \<open>s\<close> among the
  empty cells.
\<close>

definition free_cell :: "GameState \<Rightarrow> visited \<Rightarrow> Vector2i \<Rightarrow> bool" where
  "free_cell st vis p \<longleftrightarrow> isInsideGrid st p \<and> grid st p = 0 \<and> \<not> marked vis p"

definition adjacent :: "Vector2i \<Rightarrow> Vector2i \<Rightarrow> bool" where
  "adjacent a c \<longleftrightarrow> \<bar>fst c - fst a\<bar> + \<bar>snd c - snd a\<bar> = 1"

definition free_step :: "GameState \<Rightarrow> visited \<Rightarrow> (Vector2i \<times> Vector2i) set" where
  "free_step st vis = {(a, c). adjacent a c \<and> free_cell st vis c}"

definition region :: "GameState \<Rightarrow> visited \<Rightarrow> Vector2i \<Rightarrow> Vector2i set" where
  "region st vis s = (free_step st vis)\<^sup>* `` {s}"

text \<open>
  The connected component of a cell among the empty cells, under 4-neighbour adjacency:
  the cells joined to it by a path of adjacent empty cells.
\<close>

definition component :: "GameState \<Rightarrow> visited \<Rightarrow> Vector2i \<Rightarrow> Vector2i set" where
  "component st vis s =
     {(a, c). free_cell st vis a \<and> free_cell st vis c \<and> adjacent a c}\<^sup>* `` {s}"

text \<open>
  The cell a move leads to, the region of empty cells around a cell (here a cell is empty
  when it is inside the grid and not occupied), and the neighbours of a cell that are
  outside the grid or occupied.
\<close>

definition destination :: "BotClient \<Rightarrow> Direction \<Rightarrow> Vector2i" where
  "destination b d = vadd (position (my_player b)) (getDirectionVector d)"

definition empty_step :: "GameState \<Rightarrow> (Vector2i \<times> Vector2i) set" where
  "empty_step st = {(a, c). adjacent a c \<and> isInsideGrid st c \<and> grid st c = 0}"

definition empty_region :: "GameState \<Rightarrow> Vector2i \<Rightarrow> Vector2i set" where
  "empty_region st s = (empty_step st)\<^sup>* `` {s}"

definition blocked_neighbours :: "GameState \<Rightarrow> Vector2i \<Rightarrow> Vector2i set" where
  "blocked_neighbours st p = {c. adjacent p c \<and> (\<not> isInsideGrid st c \<or> grid st c \<noteq> 0)}"

definition move_area :: "BotClient \<Rightarrow> Direction \<Rightarrow> int" where
  "move_area b d = int (card (empty_region (state b) (destination b d)))"

definition move_risk :: "BotClient \<Rightarrow> Direction \<Rightarrow> int" where
  "move_risk b d = int (card (blocked_neighbours (state b) (destination b d)))"

text \<open>The bot on the grid that has the cell \<open>c\<close> set to the value \<open>v\<close>.\<close>

definition occupy :: "BotClient \<Rightarrow> Vector2i \<Rightarrow> nat \<Rightarrow> BotClient" where
  "occupy b c v = b\<lparr>state := (state b)\<lparr>grid := (grid (state b))(c := v)\<rparr>\<rparr>"

text \<open>
  The invariant of the \<open>while\<close> loop, for the visited array \<open>vis0\<close> and the start \<open>s\<close> that
  \<open>flood_fill\<close> was called with. \<open>S\<close> is the set of cells pushed so far: they are in the
  region, they are the cells marked since the call, the queue holds some of them once each,
  the others are counted, and every empty neighbour of a counted cell has been pushed.
\<close>

definition flood_inv ::
  "GameState \<Rightarrow> visited \<Rightarrow> Vector2i \<Rightarrow> Vector2i set \<Rightarrow> Vector2i list \<Rightarrow> visited \<Rightarrow> int \<Rightarrow> bool" where
  "flood_inv st vis0 s S q vis area \<longleftrightarrow>
     wf_visited st vis \<and> s \<in> S \<and> S \<subseteq> region st vis0 s \<and>
     (\<forall>p. marked vis p \<longleftrightarrow> marked vis0 p \<or> p \<in> S) \<and>
     set q \<subseteq> S \<and> distinct q \<and> area = int (card (S - set q)) \<and>
     (\<forall>a c. a \<in> S - set q \<and> adjacent a c \<and> free_cell st vis0 c \<longrightarrow> c \<in> S)"

subsection \<open>Example inputs\<close>

definition bot_at :: "GameState \<Rightarrow> Vector2i \<Rightarrow> BotClient" where
  "bot_at st p =
     \<lparr>name = ''andrei'', state = st,
      my_player = \<lparr>player_name = ''andrei'', position = p\<rparr>, rng = []\<rparr>"

definition open_grid :: "int \<Rightarrow> int \<Rightarrow> GameState" where
  "open_grid w h = \<lparr>gridWidth = w, gridHeight = h, grid = (\<lambda>p. 0), players = []\<rparr>"

definition trail_grid :: GameState where
  "trail_grid =
     \<lparr>gridWidth = 3, gridHeight = 3,
      grid = (\<lambda>p. if p = (1, 1) then 1 else if p = (0, 1) then 2 else 0), players = []\<rparr>"

definition trail_visited :: visited where
  "trail_visited = [[False, True, False], [False, True, False], [False, False, False]]"

definition open_visited :: visited where
  "open_visited = [[False, False], [False, False], [False, False]]"

definition blank_visited :: visited where
  "blank_visited = [[False, False, False], [False, False, False], [False, False, False]]"

section \<open>Lemmas\<close>

lemma in_visited_set:
  assumes "visited_set vis p = Inr vis'"
  shows "in_visited vis' q = in_visited vis q"
proof -
  from assms have iv: "in_visited vis p"
    and v': "vis' = vis[nat (fst p) := (vis ! nat (fst p))[nat (snd p) := True]]"
    by (auto simp: visited_set_def split: if_splits)
  show ?thesis
    by (cases "nat (fst q) = nat (fst p)") (auto simp: in_visited_def v' nth_list_update)
qed

lemma wf_visited_set:
  assumes "visited_set vis p = Inr vis'" and "wf_visited st vis"
  shows "wf_visited st vis'"
proof -
  from assms have iv: "in_visited vis p"
    and v': "vis' = vis[nat (fst p) := (vis ! nat (fst p))[nat (snd p) := True]]"
    by (auto simp: visited_set_def split: if_splits)
  have "length (vis' ! n) = length (vis ! n)" if "n < length vis" for n
    using that by (cases "n = nat (fst p)") (simp_all add: v')
  then show ?thesis using assms(2)
    by (simp add: wf_visited_def list_all_length v')
qed

lemma marked_set:
  assumes "visited_set vis p = Inr vis'"
  shows "marked vis' q \<longleftrightarrow> marked vis q \<or> q = p"
proof -
  from assms have iv: "in_visited vis p"
    and v': "vis' = vis[nat (fst p) := (vis ! nat (fst p))[nat (snd p) := True]]"
    by (auto simp: visited_set_def split: if_splits)
  have eq: "in_visited vis' q = in_visited vis q" by (rule in_visited_set [OF assms])
  show ?thesis
  proof (cases "in_visited vis q")
    case False
    with iv eq show ?thesis by (auto simp: marked_def visited_get_def)
  next
    case True
    have "q = p \<longleftrightarrow> nat (fst q) = nat (fst p) \<and> nat (snd q) = nat (snd p)"
      using True iv by (auto simp: in_visited_def prod_eq_iff)
    with True iv eq show ?thesis
      by (auto simp: marked_def visited_get_def v' in_visited_def nth_list_update)
  qed
qed

lemma wf_in_visited: "wf_visited st vis \<Longrightarrow> in_visited vis p = isInsideGrid st p"
  by (auto simp: wf_visited_def in_visited_def isInsideGrid_def list_all_length)

lemma visited_set_Inr: "in_visited vis p \<Longrightarrow> \<exists>vis'. visited_set vis p = Inr vis'"
  by (simp add: visited_set_def)

lemma adjacent_iff: "c \<in> vadd a ` set directionVectors \<longleftrightarrow> adjacent a c"
  by (cases a; cases c) (auto simp: adjacent_def vadd_def directionVectors_def)

lemma visited_get_wf:
  "wf_visited st vis \<Longrightarrow> isInsideGrid st p \<Longrightarrow> visited_get vis p = Inr (marked vis p)"
  by (simp add: marked_def visited_get_def wf_in_visited)

lemma flood_neighbours_spec:
  assumes "wf_visited (state b) vis"
  shows "\<exists>new vis'. flood_neighbours b cur dirs (q, vis) = Inr (q @ new, vis')
           \<and> wf_visited (state b) vis' \<and> distinct new
           \<and> set new = {c \<in> vadd cur ` set dirs. free_cell (state b) vis c}
           \<and> (\<forall>p. marked vis' p \<longleftrightarrow> marked vis p \<or> p \<in> set new)"
  using assms
proof (induction dirs arbitrary: q vis)
  case Nil
  then show ?case by simp
next
  case (Cons dir dirs)
  let ?c = "vadd cur dir"
  show ?case
  proof (cases "free_cell (state b) vis ?c")
    case True
    then have ins: "isInsideGrid (state b) ?c" and g: "grid (state b) ?c = 0"
      and nm: "\<not> marked vis ?c"
      by (simp_all add: free_cell_def)
    from ins Cons.prems have "in_visited vis ?c" by (simp add: wf_in_visited)
    then obtain vis1 where v1: "visited_set vis ?c = Inr vis1"
      using visited_set_Inr by blast
    have wf1: "wf_visited (state b) vis1" by (rule wf_visited_set [OF v1 Cons.prems])
    have step: "flood_neighbours b cur (dir # dirs) (q, vis)
                  = flood_neighbours b cur dirs (q @ [?c], vis1)"
      using ins g nm v1 visited_get_wf [OF Cons.prems ins]
      by (simp add: Let_def getGridCell_def)
    from Cons.IH [OF wf1, of "q @ [?c]"] obtain new1 vis'
      where r: "flood_neighbours b cur dirs (q @ [?c], vis1) = Inr ((q @ [?c]) @ new1, vis')"
        and wf': "wf_visited (state b) vis'" and d1: "distinct new1"
        and s1: "set new1 = {c \<in> vadd cur ` set dirs. free_cell (state b) vis1 c}"
        and m1: "\<forall>p. marked vis' p \<longleftrightarrow> marked vis1 p \<or> p \<in> set new1"
      by blast
    have fc: "free_cell (state b) vis1 c \<longleftrightarrow> free_cell (state b) vis c \<and> c \<noteq> ?c" for c
      by (auto simp: free_cell_def marked_set [OF v1])
    have "flood_neighbours b cur (dir # dirs) (q, vis) = Inr (q @ (?c # new1), vis')"
      using step r by simp
    moreover have "distinct (?c # new1)" using d1 s1 fc by auto
    moreover have "set (?c # new1)
                     = {c \<in> vadd cur ` set (dir # dirs). free_cell (state b) vis c}"
      using s1 fc True by auto
    moreover have "\<forall>p. marked vis' p \<longleftrightarrow> marked vis p \<or> p \<in> set (?c # new1)"
      using m1 marked_set [OF v1] by auto
    ultimately show ?thesis using wf' by blast
  next
    case False
    have step: "flood_neighbours b cur (dir # dirs) (q, vis)
                  = flood_neighbours b cur dirs (q, vis)"
    proof (cases "isInsideGrid (state b) ?c")
      case ins: True
      with False have "grid (state b) ?c \<noteq> 0 \<or> marked vis ?c"
        by (simp add: free_cell_def)
      then show ?thesis
        using ins visited_get_wf [OF Cons.prems ins]
        by (auto simp: Let_def getGridCell_def)
    next
      case False
      then show ?thesis by (simp add: Let_def)
    qed
    from Cons.IH [OF Cons.prems, of q] obtain new vis'
      where r: "flood_neighbours b cur dirs (q, vis) = Inr (q @ new, vis')"
        and wf': "wf_visited (state b) vis'" and d1: "distinct new"
        and s1: "set new = {c \<in> vadd cur ` set dirs. free_cell (state b) vis c}"
        and m1: "\<forall>p. marked vis' p \<longleftrightarrow> marked vis p \<or> p \<in> set new"
      by blast
    have "set new = {c \<in> vadd cur ` set (dir # dirs). free_cell (state b) vis c}"
      using s1 False by auto
    with step r wf' d1 m1 show ?thesis by metis
  qed
qed

lemma finite_inside: "finite {p. isInsideGrid st p}"
proof -
  have "{p. isInsideGrid st p} \<subseteq> {0 ..< gridWidth st} \<times> {0 ..< gridHeight st}"
    by (auto simp: isInsideGrid_def)
  then show ?thesis by (rule finite_subset) simp
qed

lemma region_start: "s \<in> region st vis s"
  by (simp add: region_def)

lemma region_step:
  "a \<in> region st vis s \<Longrightarrow> adjacent a c \<Longrightarrow> free_cell st vis c \<Longrightarrow> c \<in> region st vis s"
  by (auto simp: region_def free_step_def intro: rtrancl_into_rtrancl)

lemma region_cases: "p \<in> region st vis s \<Longrightarrow> p = s \<or> free_cell st vis p"
  by (auto simp: region_def free_step_def elim: rtranclE)

lemma finite_region: "finite (region st vis s)"
proof -
  have "region st vis s \<subseteq> insert s {p. isInsideGrid st p}"
    using region_cases by (fastforce simp: free_cell_def)
  then show ?thesis by (rule finite_subset) (simp add: finite_inside)
qed

lemma region_least:
  assumes "s \<in> S" and "\<And>a c. a \<in> S \<Longrightarrow> adjacent a c \<Longrightarrow> free_cell st vis c \<Longrightarrow> c \<in> S"
  shows "region st vis s \<subseteq> S"
proof
  fix p assume "p \<in> region st vis s"
  then have "(s, p) \<in> (free_step st vis)\<^sup>*" by (simp add: region_def)
  then show "p \<in> S"
    by (induction rule: rtrancl_induct) (auto simp: free_step_def assms)
qed

lemma flood_inv_step:
  assumes inv: "flood_inv (state b) vis0 s S (cur # rest) vis area"
  shows "\<exists>new vis'. flood_neighbours b cur directionVectors (rest, vis) = Inr (rest @ new, vis')
           \<and> flood_inv (state b) vis0 s (S \<union> set new) (rest @ new) vis' (area + 1)"
proof -
  let ?st = "state b"
  from inv have wf: "wf_visited ?st vis" and sS: "s \<in> S" and sub: "S \<subseteq> region ?st vis0 s"
    and mk: "\<And>p. marked vis p \<longleftrightarrow> marked vis0 p \<or> p \<in> S"
    and qS: "set (cur # rest) \<subseteq> S" and dq: "distinct (cur # rest)"
    and ar: "area = int (card (S - set (cur # rest)))"
    and cl: "\<And>a c. a \<in> S - set (cur # rest) \<Longrightarrow> adjacent a c \<Longrightarrow> free_cell ?st vis0 c \<Longrightarrow> c \<in> S"
    by (auto simp: flood_inv_def)
  from flood_neighbours_spec [OF wf, of cur directionVectors rest] obtain new vis'
    where r: "flood_neighbours b cur directionVectors (rest, vis) = Inr (rest @ new, vis')"
      and wf': "wf_visited ?st vis'" and dn: "distinct new"
      and sn: "set new = {c \<in> vadd cur ` set directionVectors. free_cell ?st vis c}"
      and mk': "\<And>p. marked vis' p \<longleftrightarrow> marked vis p \<or> p \<in> set new"
    by blast
  have new_iff: "c \<in> set new \<longleftrightarrow> adjacent cur c \<and> free_cell ?st vis c" for c
    by (auto simp: sn adjacent_iff [symmetric])
  have free_iff: "free_cell ?st vis c \<longleftrightarrow> free_cell ?st vis0 c \<and> c \<notin> S" for c
    by (auto simp: free_cell_def mk)
  have disj: "set new \<inter> S = {}" using new_iff free_iff by auto
  have curS: "cur \<in> S" and cur_rest: "cur \<notin> set rest" using qS dq by auto
  have fin: "finite S" using sub finite_region by (rule finite_subset)
  have "set new \<subseteq> region ?st vis0 s"
  proof
    fix c assume "c \<in> set new"
    then have "adjacent cur c" and "free_cell ?st vis0 c" using new_iff free_iff by auto
    moreover have "cur \<in> region ?st vis0 s" using curS sub by auto
    ultimately show "c \<in> region ?st vis0 s" using region_step by blast
  qed
  then have sub': "S \<union> set new \<subseteq> region ?st vis0 s" using sub by simp
  have mk2: "\<forall>p. marked vis' p \<longleftrightarrow> marked vis0 p \<or> p \<in> S \<union> set new"
    using mk mk' by auto
  have dq': "distinct (rest @ new)" using dq dn disj qS by auto
  have "(S \<union> set new) - set (rest @ new) = insert cur (S - set (cur # rest))"
    using disj curS cur_rest by auto
  moreover have "cur \<notin> S - set (cur # rest)" by simp
  ultimately have "card ((S \<union> set new) - set (rest @ new)) = Suc (card (S - set (cur # rest)))"
    using fin by simp
  then have ar': "area + 1 = int (card ((S \<union> set new) - set (rest @ new)))"
    using ar by simp
  have cl': "\<forall>a c. a \<in> (S \<union> set new) - set (rest @ new) \<and> adjacent a c \<and> free_cell ?st vis0 c
               \<longrightarrow> c \<in> S \<union> set new"
  proof (intro allI impI)
    fix a c
    assume h: "a \<in> (S \<union> set new) - set (rest @ new) \<and> adjacent a c \<and> free_cell ?st vis0 c"
    show "c \<in> S \<union> set new"
    proof (cases "a = cur")
      case True
      with h show ?thesis using new_iff [of c] free_iff [of c] by auto
    next
      case False
      with h have "a \<in> S - set (cur # rest)" by auto
      with h cl show ?thesis by blast
    qed
  qed
  have "flood_inv ?st vis0 s (S \<union> set new) (rest @ new) vis' (area + 1)"
    unfolding flood_inv_def
    using wf' sS sub' mk2 qS dq' ar' cl' by auto
  with r show ?thesis by blast
qed

lemma flood_loop_correct:
  assumes "flood_inv (state b) vis0 s S q vis area"
  shows "\<exists>vis'. flood_loop b q vis area = Inr (int (card (region (state b) vis0 s)), vis')
           \<and> wf_visited (state b) vis'
           \<and> (\<forall>p. marked vis' p \<longleftrightarrow> marked vis0 p \<or> p \<in> region (state b) vis0 s)"
  using assms
proof (induction b q vis area arbitrary: S rule: flood_loop.induct)
  case (1 b vis area)
  let ?st = "state b"
  from 1 have wf: "wf_visited ?st vis" and sS: "s \<in> S" and sub: "S \<subseteq> region ?st vis0 s"
    and mk: "\<forall>p. marked vis p \<longleftrightarrow> marked vis0 p \<or> p \<in> S"
    and ar: "area = int (card S)"
    and cl: "\<And>a c. a \<in> S \<Longrightarrow> adjacent a c \<Longrightarrow> free_cell ?st vis0 c \<Longrightarrow> c \<in> S"
    by (auto simp: flood_inv_def)
  have "region ?st vis0 s \<subseteq> S" using sS cl by (rule region_least)
  with sub have "S = region ?st vis0 s" by auto
  with wf mk ar show ?case by simp
next
  case (2 b current rest vis area)
  from flood_inv_step [OF "2.prems"] obtain new vis1
    where r: "flood_neighbours b current directionVectors (rest, vis) = Inr (rest @ new, vis1)"
      and inv': "flood_inv (state b) vis0 s (S \<union> set new) (rest @ new) vis1 (area + 1)"
    by blast
  from "2.IH" [OF r refl inv'] r show ?case by simp
qed

lemma flood_fill_correct:
  assumes ins: "isInsideGrid (state b) s" and wf: "wf_visited (state b) vis"
  shows "\<exists>vis'. flood_fill b s vis = Inr (int (card (region (state b) vis s)), vis')
           \<and> wf_visited (state b) vis'
           \<and> (\<forall>p. marked vis' p \<longleftrightarrow> marked vis p \<or> p \<in> region (state b) vis s)"
proof -
  from ins wf have "in_visited vis s" by (simp add: wf_in_visited)
  then obtain vis1 where v1: "visited_set vis s = Inr vis1"
    using visited_set_Inr by blast
  have "flood_inv (state b) vis s {s} [s] vis1 0"
    unfolding flood_inv_def
    using wf_visited_set [OF v1 wf] marked_set [OF v1] region_start [of s "state b" vis]
    by auto
  from flood_loop_correct [OF this] v1 show ?thesis
    by (simp add: flood_fill_def)
qed

lemma inside_region:
  assumes free: "\<And>p. isInsideGrid st p \<Longrightarrow> free_cell st vis p"
    and s: "isInsideGrid st s"
  shows "isInsideGrid st p \<Longrightarrow> nat (\<bar>fst p - fst s\<bar> + \<bar>snd p - snd s\<bar>) = n
           \<Longrightarrow> p \<in> region st vis s"
proof (induction n arbitrary: p)
  case 0
  then have "p = s" by (auto simp: prod_eq_iff)
  then show ?case by (simp add: region_start)
next
  case (Suc n)
  define p' where "p' =
    (if fst s < fst p then (fst p - 1, snd p) else if fst p < fst s then (fst p + 1, snd p)
     else if snd s < snd p then (fst p, snd p - 1) else (fst p, snd p + 1))"
  have ne: "fst p \<noteq> fst s \<or> snd p \<noteq> snd s" using Suc.prems(2) by auto
  have adj: "adjacent p' p" by (auto simp: p'_def adjacent_def)
  have ins': "isInsideGrid st p'"
    using Suc.prems(1) s ne by (auto simp: p'_def isInsideGrid_def)
  have "nat (\<bar>fst p' - fst s\<bar> + \<bar>snd p' - snd s\<bar>) = n"
    using Suc.prems(2) ne by (auto simp: p'_def)
  from Suc.IH [OF ins' this] adj free [OF Suc.prems(1)] show ?case
    by (rule region_step)
qed

lemma region_empty_grid:
  assumes free: "\<And>p. isInsideGrid st p \<Longrightarrow> free_cell st vis p"
    and s: "isInsideGrid st s"
  shows "region st vis s = {p. isInsideGrid st p}"
proof
  show "region st vis s \<subseteq> {p. isInsideGrid st p}"
    using region_cases [of _ st vis s] s by (auto simp: free_cell_def)
  show "{p. isInsideGrid st p} \<subseteq> region st vis s"
    using inside_region [OF free s] by blast
qed

lemma card_inside: "card {p. isInsideGrid st p} = nat (gridWidth st) * nat (gridHeight st)"
proof -
  have "{p. isInsideGrid st p} = {0 ..< gridWidth st} \<times> {0 ..< gridHeight st}"
    by (auto simp: isInsideGrid_def)
  then show ?thesis by (simp add: card_cartesian_product)
qed

lemma seed_column_spec:
  assumes "wf_visited (state b) vis" and "0 \<le> x" and "x < gridWidth (state b)"
    and "\<forall>y \<in> set ys. 0 \<le> y \<and> y < gridHeight (state b)"
  shows "\<exists>vis'. seed_column b x ys vis = Inr vis' \<and> wf_visited (state b) vis'
           \<and> (\<forall>p. marked vis' p \<longleftrightarrow>
                  marked vis p \<or> (fst p = x \<and> snd p \<in> set ys \<and> grid (state b) p \<noteq> 0))"
  using assms
proof (induction ys arbitrary: vis)
  case Nil
  then show ?case by simp
next
  case (Cons y ys)
  have ins: "isInsideGrid (state b) (x, y)"
    using Cons.prems by (simp add: isInsideGrid_def)
  show ?case
  proof (cases "grid (state b) (x, y) = 0")
    case True
    from Cons.IH [of vis] Cons.prems obtain vis'
      where "seed_column b x ys vis = Inr vis'" and "wf_visited (state b) vis'"
        and "\<forall>p. marked vis' p \<longleftrightarrow>
               marked vis p \<or> (fst p = x \<and> snd p \<in> set ys \<and> grid (state b) p \<noteq> 0)"
      by auto
    with True ins show ?thesis
      by (auto simp: getGridCell_def)
  next
    case False
    from ins Cons.prems(1) have "in_visited vis (x, y)" by (simp add: wf_in_visited)
    then obtain vis1 where v1: "visited_set vis (x, y) = Inr vis1"
      using visited_set_Inr by blast
    from Cons.IH [OF wf_visited_set [OF v1 Cons.prems(1)]] Cons.prems obtain vis'
      where "seed_column b x ys vis1 = Inr vis'" and "wf_visited (state b) vis'"
        and "\<forall>p. marked vis' p \<longleftrightarrow>
               marked vis1 p \<or> (fst p = x \<and> snd p \<in> set ys \<and> grid (state b) p \<noteq> 0)"
      by auto
    with False ins v1 marked_set [OF v1] show ?thesis
      by (auto simp: getGridCell_def)
  qed
qed

lemma seed_visited_spec:
  assumes "wf_visited (state b) vis" and "\<forall>x \<in> set xs. 0 \<le> x \<and> x < gridWidth (state b)"
  shows "\<exists>vis'. seed_visited b xs vis = Inr vis' \<and> wf_visited (state b) vis'
           \<and> (\<forall>p. marked vis' p \<longleftrightarrow>
                  marked vis p \<or>
                  (fst p \<in> set xs \<and> 0 \<le> snd p \<and> snd p < gridHeight (state b)
                     \<and> grid (state b) p \<noteq> 0))"
  using assms
proof (induction xs arbitrary: vis)
  case Nil
  then show ?case by simp
next
  case (Cons x xs)
  have "\<forall>y \<in> set [0 .. gridHeight (state b) - 1]. 0 \<le> y \<and> y < gridHeight (state b)"
    by simp
  from seed_column_spec [OF Cons.prems(1) _ _ this, of x] Cons.prems(2) obtain vis1
    where c: "seed_column b x [0 .. gridHeight (state b) - 1] vis = Inr vis1"
      and wf1: "wf_visited (state b) vis1"
      and m1: "\<forall>p. marked vis1 p \<longleftrightarrow>
                 marked vis p \<or> (fst p = x \<and> snd p \<in> set [0 .. gridHeight (state b) - 1]
                                  \<and> grid (state b) p \<noteq> 0)"
    by auto
  from Cons.IH [OF wf1] Cons.prems(2) obtain vis'
    where "seed_visited b xs vis1 = Inr vis'" and "wf_visited (state b) vis'"
      and "\<forall>p. marked vis' p \<longleftrightarrow>
             marked vis1 p \<or>
             (fst p \<in> set xs \<and> 0 \<le> snd p \<and> snd p < gridHeight (state b)
                \<and> grid (state b) p \<noteq> 0)"
    by auto
  with c m1 show ?case by auto
qed

lemma inside_dims:
  "isInsideGrid st p \<Longrightarrow> 0 \<le> gridWidth st \<and> 0 \<le> gridHeight st"
  by (auto simp: isInsideGrid_def)

lemma init_visited_spec:
  assumes "0 \<le> gridWidth (state b) \<and> 0 \<le> gridHeight (state b)"
  shows "\<exists>vis. init_visited b = Inr vis \<and> wf_visited (state b) vis
         \<and> (\<forall>p. marked vis p \<longleftrightarrow> isInsideGrid (state b) p \<and> grid (state b) p \<noteq> 0)"
proof -
  let ?v0 = "replicate (nat (gridWidth (state b))) (replicate (nat (gridHeight (state b))) False)"
  have wf0: "wf_visited (state b) ?v0"
    by (simp add: wf_visited_def list_all_length)
  have m0: "\<not> marked ?v0 p" for p
  proof (cases "isInsideGrid (state b) p")
    case True
    then have "nat (fst p) < nat (gridWidth (state b))"
      and "nat (snd p) < nat (gridHeight (state b))"
      by (auto simp: isInsideGrid_def)
    then show ?thesis by (simp add: marked_def visited_get_def)
  next
    case False
    then show ?thesis by (simp add: marked_def visited_get_def wf_in_visited [OF wf0])
  qed
  have "\<forall>x \<in> set [0 .. gridWidth (state b) - 1]. 0 \<le> x \<and> x < gridWidth (state b)"
    by simp
  from seed_visited_spec [OF wf0 this] m0 assms show ?thesis
    by (auto simp: init_visited_def isInsideGrid_def)
qed

lemma is_valid_move_eq:
  "is_valid_move b d =
     Inr (isInsideGrid (state b) (destination b d) \<and> grid (state b) (destination b d) = 0)"
  by (simp add: is_valid_move_def destination_def getGridCell_def Let_def)

lemma count_risk_spec:
  "count_risk b p dirs r =
     Inr (r + int (length (filter (\<lambda>c. \<not> isInsideGrid (state b) c \<or> grid (state b) c \<noteq> 0)
                             (map (vadd p) dirs))))"
  by (induction dirs arbitrary: r) (simp_all add: Let_def getGridCell_def)

lemma distinct_neighbours: "distinct (map (vadd p) directionVectors)"
  by (simp add: directionVectors_def vadd_def)

lemma count_risk_blocked:
  "count_risk b p directionVectors 0 = Inr (int (card (blocked_neighbours (state b) p)))"
proof -
  let ?P = "\<lambda>c. \<not> isInsideGrid (state b) c \<or> grid (state b) c \<noteq> 0"
  let ?xs = "filter ?P (map (vadd p) directionVectors)"
  have "distinct ?xs" using distinct_neighbours by (rule distinct_filter)
  then have "card (set ?xs) = length ?xs" by (rule distinct_card)
  moreover have "set ?xs = blocked_neighbours (state b) p"
    using adjacent_iff [of _ p] by (auto simp: blocked_neighbours_def)
  ultimately show ?thesis by (simp add: count_risk_spec)
qed

lemma card_blocked_le: "card (blocked_neighbours st p) \<le> 4"
proof -
  have "blocked_neighbours st p \<subseteq> set (map (vadd p) directionVectors)"
    using adjacent_iff [of _ p] by (auto simp: blocked_neighbours_def)
  then have "card (blocked_neighbours st p) \<le> card (set (map (vadd p) directionVectors))"
    by (rule card_mono [rotated]) simp
  also have "\<dots> \<le> length (map (vadd p) directionVectors)" by (rule card_length)
  also have "\<dots> = 4" by (simp add: directionVectors_def)
  finally show ?thesis .
qed

lemma region_seeded:
  assumes "\<forall>p. marked vis p \<longleftrightarrow> isInsideGrid st p \<and> grid st p \<noteq> 0"
  shows "region st vis s = empty_region st s"
proof -
  have "free_step st vis = empty_step st"
    using assms by (auto simp: free_step_def empty_step_def free_cell_def)
  then show ?thesis by (simp add: region_def empty_region_def)
qed

lemma evaluate_move_eq:
  "evaluate_move b d =
     Inr (if isInsideGrid (state b) (destination b d) \<and> grid (state b) (destination b d) = 0
          then move_area b d - move_risk b d * 10 else - 1)"
proof (cases "isInsideGrid (state b) (destination b d) \<and> grid (state b) (destination b d) = 0")
  case False
  then show ?thesis by (auto simp: evaluate_move_def is_valid_move_eq)
next
  case True
  from True have ins: "isInsideGrid (state b) (destination b d)" by simp
  from init_visited_spec [OF inside_dims [OF ins]] obtain vis
    where iv: "init_visited b = Inr vis" and wf: "wf_visited (state b) vis"
      and mk: "\<forall>p. marked vis p \<longleftrightarrow> isInsideGrid (state b) p \<and> grid (state b) p \<noteq> 0"
    by blast
  from flood_fill_correct [OF ins wf] obtain vis'
    where ff: "flood_fill b (destination b d) vis
                 = Inr (int (card (region (state b) vis (destination b d))), vis')"
    by blast
  have "flood_fill b (destination b d) vis = Inr (move_area b d, vis')"
    using ff region_seeded [OF mk] by (simp add: move_area_def)
  with True iv show ?thesis
    by (simp add: evaluate_move_def is_valid_move_eq count_risk_blocked move_risk_def
        destination_def [symmetric])
qed

lemma finite_empty_region: "finite (empty_region st s)"
proof -
  have "empty_region st s \<subseteq> insert s {p. isInsideGrid st p}"
    by (auto simp: empty_region_def empty_step_def elim: rtranclE)
  then show ?thesis by (rule finite_subset) (simp add: finite_inside)
qed

lemma move_area_pos: "1 \<le> move_area b d"
proof -
  have "destination b d \<in> empty_region (state b) (destination b d)"
    by (simp add: empty_region_def)
  then have "card (empty_region (state b) (destination b d)) \<noteq> 0"
    using finite_empty_region by auto
  then show ?thesis by (simp add: move_area_def)
qed

lemma evaluate_move_lower:
  "evaluate_move b d = Inr s \<Longrightarrow> - 39 \<le> s"
  using move_area_pos [of b d] card_blocked_le [of "state b" "destination b d"]
  by (auto simp: evaluate_move_eq move_risk_def split: if_splits)

lemma evaluate_move_total: "\<exists>s. evaluate_move b d = Inr s \<and> INT_MIN < s"
proof -
  obtain s where s: "evaluate_move b d = Inr s" by (simp add: evaluate_move_eq)
  from evaluate_move_lower [OF s] s show ?thesis by (simp add: INT_MIN_def)
qed

lemma decide_move_unfold:
  assumes "evaluate_move b north = Inr sn" and "evaluate_move b east = Inr se"
    and "evaluate_move b south = Inr ss" and "evaluate_move b west = Inr sw"
    and "INT_MIN < sn"
  shows "decide_move b =
     Inr (if sn < se then (if se < ss then (if ss < sw then west else south)
                           else (if se < sw then west else east))
          else (if sn < ss then (if ss < sw then west else south)
                else (if sn < sw then west else north)))"
  using assms by (simp add: decide_move_def getDirectionFromValue_def)

lemma decide_move_best:
  "\<exists>d s. decide_move b = Inr d \<and> evaluate_move b d = Inr s \<and>
      (\<forall>d' s'. evaluate_move b d' = Inr s' \<longrightarrow>
          s' \<le> s \<and> (s' = s \<longrightarrow> getDirectionValue d \<le> getDirectionValue d'))"
proof -
  obtain sn se ss sw where ev: "evaluate_move b north = Inr sn" "evaluate_move b east = Inr se"
    "evaluate_move b south = Inr ss" "evaluate_move b west = Inr sw" and lo: "INT_MIN < sn"
    using evaluate_move_total by metis
  define sc where "sc = (\<lambda>d. case d of north \<Rightarrow> sn | east \<Rightarrow> se | south \<Rightarrow> ss | west \<Rightarrow> sw)"
  define best where "best =
     (if sn < se then (if se < ss then (if ss < sw then west else south)
                       else (if se < sw then west else east))
      else (if sn < ss then (if ss < sw then west else south)
            else (if sn < sw then west else north)))"
  have dm: "decide_move b = Inr best"
    unfolding best_def by (rule decide_move_unfold [OF ev lo])
  have ev_sc: "evaluate_move b d = Inr (sc d)" for d
    by (cases d) (simp_all add: sc_def ev)
  have mx: "sc d' \<le> sc best" for d'
    by (cases d') (auto simp: best_def sc_def)
  have tie: "getDirectionValue best \<le> getDirectionValue d'" if "sc d' = sc best" for d'
    using that by (cases d') (auto simp: best_def sc_def split: if_splits)
  show ?thesis
    using dm ev_sc mx tie by (intro exI [of _ best] exI [of _ "sc best"]) auto
qed

lemma flood_neighbours_state:
  "state b1 = state b2 \<Longrightarrow>
     flood_neighbours b1 cur dirs (q, vis) = flood_neighbours b2 cur dirs (q, vis)"
proof (induction dirs arbitrary: q vis)
  case Nil
  then show ?case by simp
next
  case (Cons dir dirs)
  then show ?case by (simp add: Let_def split: sum.splits)
qed

lemma flood_loop_state:
  "state b1 = state b2 \<Longrightarrow> flood_loop b1 q vis area = flood_loop b2 q vis area"
proof (induction b1 q vis area rule: flood_loop.induct)
  case (1 b vis area)
  then show ?case by simp
next
  case (2 b current rest vis area)
  have "flood_neighbours b current directionVectors (rest, vis)
          = flood_neighbours b2 current directionVectors (rest, vis)"
    using "2.prems" by (rule flood_neighbours_state)
  with 2 show ?case by (simp split: sum.splits prod.splits)
qed

lemma flood_fill_state:
  assumes "state b1 = state b2"
  shows "flood_fill b1 s vis = flood_fill b2 s vis"
  by (cases "visited_set vis s")
     (simp_all add: flood_fill_def flood_loop_state [OF assms] del: flood_loop.simps)

lemma seed_column_state:
  "state b1 = state b2 \<Longrightarrow> seed_column b1 x ys vis = seed_column b2 x ys vis"
  by (induction ys arbitrary: vis) (simp_all split: sum.splits)

lemma seed_visited_state:
  assumes "state b1 = state b2"
  shows "seed_visited b1 xs vis = seed_visited b2 xs vis"
  by (induction xs arbitrary: vis)
     (simp_all add: seed_column_state [OF assms] assms split: sum.splits)

lemma count_risk_state:
  "state b1 = state b2 \<Longrightarrow> count_risk b1 p dirs r = count_risk b2 p dirs r"
  by (induction dirs arbitrary: r) (simp_all add: Let_def split: sum.splits)

lemma is_valid_move_state:
  "state b1 = state b2 \<Longrightarrow> position (my_player b1) = position (my_player b2) \<Longrightarrow>
     is_valid_move b1 d = is_valid_move b2 d"
  by (simp add: is_valid_move_def Let_def cong: if_cong sum.case_cong)

lemma evaluate_move_state:
  assumes "state b1 = state b2" and "position (my_player b1) = position (my_player b2)"
  shows "evaluate_move b1 d = evaluate_move b2 d"
proof -
  have "init_visited b1 = init_visited b2"
    using assms(1) by (simp add: init_visited_def seed_visited_state [OF assms(1)])
  then show ?thesis
    using assms
    by (simp add: evaluate_move_def is_valid_move_state [OF assms] flood_fill_state [OF assms(1)]
        count_risk_state [OF assms(1)] Let_def cong: if_cong sum.case_cong prod.case_cong)
qed

lemma decide_loop_state:
  assumes "state b1 = state b2" and "position (my_player b1) = position (my_player b2)"
  shows "decide_loop b1 is (m, best) = decide_loop b2 is (m, best)"
proof (induction "is" arbitrary: m best)
  case Nil
  show ?case by simp
next
  case (Cons i rest)
  show ?case
  proof (cases "getDirectionFromValue i")
    case None
    then show ?thesis by simp
  next
    case (Some d)
    show ?thesis
    proof (cases "evaluate_move b2 d")
      case (Inl e)
      with Some show ?thesis by (simp add: evaluate_move_state [OF assms])
    next
      case (Inr s)
      with Some Cons.IH show ?thesis by (simp add: evaluate_move_state [OF assms])
    qed
  qed
qed

lemma bot_at_simps [simp]:
  "state (bot_at st p) = st" "position (my_player (bot_at st p)) = p"
  by (simp_all add: bot_at_def)

lemmas eval_defs =
  trail_grid_def trail_visited_def open_grid_def
  is_valid_move_def evaluate_move_def decide_move_def INT_MIN_def getDirectionFromValue_def
  init_visited_def flood_fill_def visited_set_def visited_get_def in_visited_def
  getGridCell_def isInsideGrid_def vadd_def directionVectors_def Let_def upto.simps
  wf_visited_def marked_def free_cell_def

lemma region_component:
  assumes "free_cell st vis s"
  shows "region st vis s = component st vis s"
proof
  let ?E = "{(a, c). free_cell st vis a \<and> free_cell st vis c \<and> adjacent a c}"
  have "(s, p) \<in> ?E\<^sup>* \<and> free_cell st vis p" if "(s, p) \<in> (free_step st vis)\<^sup>*" for p
    using that
  proof (induction rule: rtrancl_induct)
    case base
    show ?case using assms by simp
  next
    case (step y z)
    then have "(y, z) \<in> ?E" by (simp add: free_step_def)
    with step show ?case by (auto simp: free_step_def intro: rtrancl_into_rtrancl)
  qed
  then show "region st vis s \<subseteq> component st vis s"
    by (auto simp: region_def component_def)
  have "?E \<subseteq> free_step st vis" by (auto simp: free_step_def)
  then have "?E\<^sup>* \<subseteq> (free_step st vis)\<^sup>*" by (rule rtrancl_mono)
  then show "component st vis s \<subseteq> region st vis s"
    by (auto simp: region_def component_def)
qed

lemma open_visited_replicate: "open_visited = replicate 3 (replicate 2 False)"
  by (simp add: open_visited_def numeral_3_eq_3 numeral_2_eq_2)

lemma open_visited_unmarked: "\<not> marked open_visited p"
proof (cases "in_visited open_visited p")
  case True
  then have "nat (fst p) < 3" and "nat (snd p) < 2"
    by (auto simp: in_visited_def open_visited_replicate)
  then show ?thesis by (simp add: marked_def visited_get_def open_visited_replicate)
next
  case False
  then show ?thesis by (simp add: marked_def visited_get_def)
qed

lemma region_mono:
  assumes "\<And>p. free_cell st' vis' p \<Longrightarrow> free_cell st vis p"
  shows "region st' vis' s \<subseteq> region st vis s"
proof -
  have "free_step st' vis' \<subseteq> free_step st vis"
    using assms by (auto simp: free_step_def)
  then have "(free_step st' vis')\<^sup>* \<subseteq> (free_step st vis)\<^sup>*" by (rule rtrancl_mono)
  then show ?thesis by (auto simp: region_def)
qed

lemma flood_fill_mono:
  assumes wf: "wf_visited (state b) vis" and wf': "wf_visited (state b') vis'"
    and ins: "isInsideGrid (state b) start" and ins': "isInsideGrid (state b') start"
    and free: "\<And>p. free_cell (state b') vis' p \<Longrightarrow> free_cell (state b) vis p"
  shows "\<exists>a w a' w'. flood_fill b start vis = Inr (a, w)
           \<and> flood_fill b' start vis' = Inr (a', w') \<and> a' \<le> a"
proof -
  from flood_fill_correct [OF ins wf] obtain w
    where 1: "flood_fill b start vis = Inr (int (card (region (state b) vis start)), w)"
    by blast
  from flood_fill_correct [OF ins' wf'] obtain w'
    where 2: "flood_fill b' start vis' = Inr (int (card (region (state b') vis' start)), w')"
    by blast
  have "region (state b') vis' start \<subseteq> region (state b) vis start"
    using free by (rule region_mono)
  then have "card (region (state b') vis' start) \<le> card (region (state b) vis start)"
    by (rule card_mono [OF finite_region])
  with 1 2 show ?thesis by simp
qed

lemma occupy_simps:
  "gridWidth (state (occupy b c v)) = gridWidth (state b)"
  "gridHeight (state (occupy b c v)) = gridHeight (state b)"
  "grid (state (occupy b c v)) = (grid (state b))(c := v)"
  "position (my_player (occupy b c v)) = position (my_player b)"
  by (simp_all add: occupy_def)

lemma occupy_inside: "isInsideGrid (state (occupy b c v)) p = isInsideGrid (state b) p"
  by (simp add: isInsideGrid_def occupy_simps)

lemma occupy_wf: "wf_visited (state (occupy b c v)) vis = wf_visited (state b) vis"
  by (simp add: wf_visited_def occupy_simps)

lemma decide_loop_step:
  assumes "getDirectionFromValue i = Some d" and "evaluate_move b d = Inr s"
  shows "decide_loop b (i # rest) (m, best)
           = decide_loop b rest (if m < s then (s, d) else (m, best))"
  using assms by simp

lemma evaluate_move_illegal:
  "is_valid_move b d = Inr False \<Longrightarrow> evaluate_move b d = Inr (- 1)"
  by (simp add: evaluate_move_def)

text \<open>
  The unguarded write \<open>visited[position.x][position.y] = true\<close> at the head of
  \<open>flood_fill\<close> is out of bounds when the start is outside the visited array.
\<close>

lemma flood_fill_outside:
  "\<not> in_visited vis start \<Longrightarrow> flood_fill b start vis = Inl OutOfBounds"
  by (simp add: flood_fill_def visited_set_def)

section \<open>The claims\<close>

text \<open>
  Claim C1 says that an illegal move scores \<open>-1\<close> and is returned only when all four
  moves are illegal. The first half holds (\<open>evaluate_move_illegal\<close>); the second does not,
  since a legal move can score less than \<open>-1\<close>. On the 3 x 3 grid with the bot's own
  cell \<open>(1,1)\<close> and the cell \<open>(0,1)\<close> occupied, the three legal moves score
  \<open>7 - 2 * 10 = -13\<close> and the illegal move West scores \<open>-1\<close>, so \<open>decide_move\<close>
  returns West, into the occupied cell.
\<close>

theorem decide_move_prefers_illegal:
  "is_valid_move (bot_at trail_grid (1, 1)) north = Inr True
   \<and> is_valid_move (bot_at trail_grid (1, 1)) east = Inr True
   \<and> is_valid_move (bot_at trail_grid (1, 1)) south = Inr True
   \<and> is_valid_move (bot_at trail_grid (1, 1)) west = Inr False
   \<and> evaluate_move (bot_at trail_grid (1, 1)) north = Inr (- 13)
   \<and> evaluate_move (bot_at trail_grid (1, 1)) east = Inr (- 13)
   \<and> evaluate_move (bot_at trail_grid (1, 1)) south = Inr (- 13)
   \<and> evaluate_move (bot_at trail_grid (1, 1)) west = Inr (- 1)
   \<and> decide_move (bot_at trail_grid (1, 1)) = Inr west"
proof -
  let ?b = "bot_at trail_grid (1, 1)"
  have v: "is_valid_move ?b north = Inr True" "is_valid_move ?b east = Inr True"
    "is_valid_move ?b south = Inr True" "is_valid_move ?b west = Inr False"
    by (simp_all add: eval_defs)
  have n: "evaluate_move ?b north = Inr (- 13)" by (simp add: eval_defs)
  have e: "evaluate_move ?b east = Inr (- 13)" by (simp add: eval_defs)
  have s: "evaluate_move ?b south = Inr (- 13)" by (simp add: eval_defs)
  have w: "evaluate_move ?b west = Inr (- 1)" by (simp add: eval_defs)
  have "decide_move ?b = Inr west" by (simp add: eval_defs)
  with v n e s w show ?thesis by simp
qed

text \<open>
  Claim C2. For a visited array of the grid's dimensions and a start cell that is inside
  the grid, not occupied and not marked, \<open>flood_fill\<close> returns the number of cells of the
  connected component of the start among the empty cells (inside, not occupied, not
  marked beforehand), under 4-neighbour adjacency. When no cell of the grid is occupied
  or marked, that is \<open>W * H\<close>.
\<close>

theorem flood_fill_component:
  assumes "wf_visited (state b) vis" and "free_cell (state b) vis start"
  shows "(\<exists>vis'. flood_fill b start vis
                   = Inr (int (card (component (state b) vis start)), vis'))
         \<and> ((\<forall>p. isInsideGrid (state b) p \<longrightarrow> grid (state b) p = 0 \<and> \<not> marked vis p)
              \<longrightarrow> (\<exists>vis'. flood_fill b start vis
                             = Inr (gridWidth (state b) * gridHeight (state b), vis')))"
proof -
  from assms(2) have ins: "isInsideGrid (state b) start" by (simp add: free_cell_def)
  from flood_fill_correct [OF ins assms(1)] obtain vis'
    where ff: "flood_fill b start vis = Inr (int (card (region (state b) vis start)), vis')"
    by blast
  have 1: "flood_fill b start vis = Inr (int (card (component (state b) vis start)), vis')"
    using ff region_component [OF assms(2)] by simp
  have 2: "flood_fill b start vis = Inr (gridWidth (state b) * gridHeight (state b), vis')"
    if all: "\<forall>p. isInsideGrid (state b) p \<longrightarrow> grid (state b) p = 0 \<and> \<not> marked vis p"
  proof -
    have "region (state b) vis start = {p. isInsideGrid (state b) p}"
      using all ins by (intro region_empty_grid) (auto simp: free_cell_def)
    then have "int (card (region (state b) vis start))
                 = int (nat (gridWidth (state b)) * nat (gridHeight (state b)))"
      by (simp add: card_inside)
    also have "\<dots> = gridWidth (state b) * gridHeight (state b)"
      using ins by (simp add: isInsideGrid_def)
    finally show ?thesis using ff by simp
  qed
  from 1 2 show ?thesis by blast
qed

theorem flood_fill_component_witness:
  "flood_fill (bot_at (open_grid 3 2) (0, 0)) (1, 0) open_visited
     = Inr (6, [[True, True], [True, True], [True, True]])
   \<and> card (component (open_grid 3 2) open_visited (1, 0)) = 6"
proof -
  let ?b = "bot_at (open_grid 3 2) (0, 0)"
  have wf: "wf_visited (state ?b) open_visited"
    by (simp add: open_visited_def eval_defs)
  have fr: "free_cell (state ?b) open_visited (1, 0)"
    by (simp add: free_cell_def open_visited_unmarked) (simp add: eval_defs)
  have ev: "flood_fill ?b (1, 0) open_visited = Inr (6, [[True, True], [True, True], [True, True]])"
    by (simp add: open_visited_def eval_defs)
  have all: "\<forall>p. isInsideGrid (state ?b) p \<longrightarrow>
               grid (state ?b) p = 0 \<and> \<not> marked open_visited p"
    by (simp add: open_visited_unmarked) (simp add: open_grid_def)
  from flood_fill_component [OF wf fr] all
  have "(\<exists>vis'. flood_fill ?b (1, 0) open_visited
                  = Inr (int (card (component (state ?b) open_visited (1, 0))), vis'))
        \<and> (\<exists>vis'. flood_fill ?b (1, 0) open_visited
                  = Inr (gridWidth (state ?b) * gridHeight (state ?b), vis'))"
    by blast
  with ev have "int (card (component (state ?b) open_visited (1, 0))) = 6"
    by auto
  with ev show ?thesis by simp
qed

text \<open>
  Claim C3. \<open>decide_move\<close> takes the directions in the order of the enumeration, and a
  direction replaces the best so far only when its score is strictly greater. So the
  direction returned has the maximal score, and among the directions with that score it
  is the first of the enumeration.
\<close>

theorem decide_move_tie_break:
  "(\<forall>i d s rest m best.
       getDirectionFromValue i = Some d \<and> evaluate_move b d = Inr s \<longrightarrow>
       decide_loop b (i # rest) (m, best)
         = decide_loop b rest (if m < s then (s, d) else (m, best)))
   \<and> (\<exists>d s. decide_move b = Inr d \<and> evaluate_move b d = Inr s \<and>
         (\<forall>d' s'. evaluate_move b d' = Inr s' \<longrightarrow>
            s' \<le> s \<and> (s' = s \<longrightarrow> getDirectionValue d \<le> getDirectionValue d')))"
  using decide_loop_step [of _ _ b] decide_move_best [of b] by blast

theorem decide_move_tie_break_witness:
  "evaluate_move (bot_at (open_grid 5 5) (2, 2)) north = Inr 25
   \<and> evaluate_move (bot_at (open_grid 5 5) (2, 2)) east = Inr 25
   \<and> evaluate_move (bot_at (open_grid 5 5) (2, 2)) south = Inr 25
   \<and> evaluate_move (bot_at (open_grid 5 5) (2, 2)) west = Inr 25
   \<and> decide_move (bot_at (open_grid 5 5) (2, 2)) = Inr north"
proof -
  let ?b = "bot_at (open_grid 5 5) (2, 2)"
  have n: "evaluate_move ?b north = Inr 25" by (simp add: eval_defs)
  have e: "evaluate_move ?b east = Inr 25" by (simp add: eval_defs)
  have s: "evaluate_move ?b south = Inr 25" by (simp add: eval_defs)
  have w: "evaluate_move ?b west = Inr 25" by (simp add: eval_defs)
  from decide_move_tie_break [of ?b] obtain d sc
    where d: "decide_move ?b = Inr d" and "evaluate_move ?b d = Inr sc"
      and tie: "\<forall>d' s'. evaluate_move ?b d' = Inr s' \<longrightarrow>
                  s' \<le> sc \<and> (s' = sc \<longrightarrow> getDirectionValue d \<le> getDirectionValue d')"
    by blast
  then have "sc = 25" using n by (cases d) (simp_all add: n e s w)
  with tie n have "getDirectionValue d \<le> getDirectionValue north" by blast
  then have "d = north" by (cases d) simp_all
  with d n e s w show ?thesis by simp
qed

text \<open>
  Claim C4. \<open>decide_move\<close> is total: for every bot it ends, without an error, with one
  direction. It starts from North with the least \<open>int\<close> as the score, and when all four
  moves are illegal it returns North.
\<close>

theorem decide_move_total:
  "(\<exists>d. decide_move b = Inr d)
   \<and> decide_move b = (case decide_loop b [0, 1, 2, 3] (- (2 ^ 31), north) of
                        Inl e \<Rightarrow> Inl e | Inr (max_score, best_direction) \<Rightarrow> Inr best_direction)
   \<and> ((\<forall>d. is_valid_move b d = Inr False) \<longrightarrow> decide_move b = Inr north)"
proof (intro conjI impI)
  show "\<exists>d. decide_move b = Inr d" using decide_move_best [of b] by blast
  show "decide_move b = (case decide_loop b [0, 1, 2, 3] (- (2 ^ 31), north) of
                        Inl e \<Rightarrow> Inl e | Inr (max_score, best_direction) \<Rightarrow> Inr best_direction)"
    by (simp only: decide_move_def INT_MIN_def) simp
  assume "\<forall>d. is_valid_move b d = Inr False"
  then have "evaluate_move b d = Inr (- 1)" for d
    by (simp add: evaluate_move_illegal)
  then have "decide_move b =
     Inr (if (- 1 :: int) < - 1 then (if (- 1 :: int) < - 1 then (if (- 1 :: int) < - 1 then west else south)
                           else (if (- 1 :: int) < - 1 then west else east))
          else (if (- 1 :: int) < - 1 then (if (- 1 :: int) < - 1 then west else south)
                else (if (- 1 :: int) < - 1 then west else north)))"
    by (intro decide_move_unfold) (simp_all add: INT_MIN_def)
  then show "decide_move b = Inr north" by simp
qed

theorem decide_move_total_witness:
  "is_valid_move (bot_at (open_grid 1 1) (0, 0)) north = Inr False
   \<and> is_valid_move (bot_at (open_grid 1 1) (0, 0)) east = Inr False
   \<and> is_valid_move (bot_at (open_grid 1 1) (0, 0)) south = Inr False
   \<and> is_valid_move (bot_at (open_grid 1 1) (0, 0)) west = Inr False
   \<and> decide_move (bot_at (open_grid 1 1) (0, 0)) = Inr north"
proof -
  let ?b = "bot_at (open_grid 1 1) (0, 0)"
  have ill: "is_valid_move ?b d = Inr False" for d
    by (cases d) (simp_all add: eval_defs)
  then have "\<forall>d. is_valid_move ?b d = Inr False" by simp
  with decide_move_total [of ?b] have "decide_move ?b = Inr north" by blast
  with ill show ?thesis by simp
qed

text \<open>
  Claim C5. Marking one more cell \<open>c\<close> as occupied never increases the area that
  \<open>flood_fill\<close> returns from a fixed start cell: with the same visited array, and with the
  visited arrays that \<open>evaluate_move\<close> seeds from the two grids. This holds for every
  start inside the grid, the unoccupied ones among them.
\<close>

theorem flood_fill_antitone:
  assumes "wf_visited (state b) vis" and "isInsideGrid (state b) start" and "v \<noteq> 0"
  shows "(\<exists>a w a' w'. flood_fill b start vis = Inr (a, w)
            \<and> flood_fill (occupy b c v) start vis = Inr (a', w') \<and> a' \<le> a)
         \<and> (\<exists>seed seed' a w a' w'. init_visited b = Inr seed
               \<and> init_visited (occupy b c v) = Inr seed'
               \<and> flood_fill b start seed = Inr (a, w)
               \<and> flood_fill (occupy b c v) start seed' = Inr (a', w') \<and> a' \<le> a)"
proof
  have "free_cell (state (occupy b c v)) vis p \<Longrightarrow> free_cell (state b) vis p" for p
    using assms(3) by (auto simp: free_cell_def occupy_inside occupy_simps split: if_splits)
  with assms show "\<exists>a w a' w'. flood_fill b start vis = Inr (a, w)
            \<and> flood_fill (occupy b c v) start vis = Inr (a', w') \<and> a' \<le> a"
    by (intro flood_fill_mono) (simp_all add: occupy_inside occupy_wf)
next
  note dims = inside_dims [OF assms(2)]
  from init_visited_spec [OF dims] obtain seed
    where s: "init_visited b = Inr seed" and wf: "wf_visited (state b) seed"
      and mk: "\<forall>p. marked seed p \<longleftrightarrow> isInsideGrid (state b) p \<and> grid (state b) p \<noteq> 0"
    by blast
  have "0 \<le> gridWidth (state (occupy b c v)) \<and> 0 \<le> gridHeight (state (occupy b c v))"
    using dims by (simp add: occupy_simps)
  from init_visited_spec [OF this] obtain seed'
    where s': "init_visited (occupy b c v) = Inr seed'"
      and wf': "wf_visited (state (occupy b c v)) seed'"
      and mk': "\<forall>p. marked seed' p \<longleftrightarrow>
                  isInsideGrid (state (occupy b c v)) p \<and> grid (state (occupy b c v)) p \<noteq> 0"
    by blast
  have "free_cell (state (occupy b c v)) seed' p \<Longrightarrow> free_cell (state b) seed p" for p
    using assms(3) mk [rule_format, of p]
    by (auto simp: free_cell_def occupy_inside occupy_simps split: if_splits)
  with wf wf' assms(2)
  have "\<exists>a w a' w'. flood_fill b start seed = Inr (a, w)
          \<and> flood_fill (occupy b c v) start seed' = Inr (a', w') \<and> a' \<le> a"
    by (intro flood_fill_mono) (simp_all add: occupy_inside)
  with s s' show "\<exists>seed seed' a w a' w'. init_visited b = Inr seed
               \<and> init_visited (occupy b c v) = Inr seed'
               \<and> flood_fill b start seed = Inr (a, w)
               \<and> flood_fill (occupy b c v) start seed' = Inr (a', w') \<and> a' \<le> a"
    by blast
qed

theorem flood_fill_antitone_witness:
  "flood_fill (bot_at (open_grid 3 2) (0, 0)) (0, 0) open_visited
     = Inr (6, [[True, True], [True, True], [True, True]])
   \<and> flood_fill (occupy (bot_at (open_grid 3 2) (0, 0)) (1, 1) 1) (0, 0) open_visited
     = Inr (5, [[True, True], [True, False], [True, True]])
   \<and> (\<exists>a w a' w'. flood_fill (bot_at (open_grid 3 2) (0, 0)) (0, 0) open_visited = Inr (a, w)
         \<and> flood_fill (occupy (bot_at (open_grid 3 2) (0, 0)) (1, 1) 1) (0, 0) open_visited
             = Inr (a', w')
         \<and> a' \<le> a)"
proof -
  let ?b = "bot_at (open_grid 3 2) (0, 0)"
  have wf: "wf_visited (state ?b) open_visited"
    by (simp add: open_visited_def eval_defs)
  have ins: "isInsideGrid (state ?b) (0, 0)"
    by (simp add: eval_defs)
  have v: "(1 :: nat) \<noteq> 0" by simp
  have 1: "flood_fill ?b (0, 0) open_visited
             = Inr (6, [[True, True], [True, True], [True, True]])"
    by (simp add: open_visited_def eval_defs)
  have 2: "flood_fill (occupy ?b (1, 1) 1) (0, 0) open_visited
             = Inr (5, [[True, True], [True, False], [True, True]])"
    by (simp add: open_visited_def occupy_simps eval_defs)
  from flood_fill_antitone [OF wf ins v, of "(1, 1)"] 1 2 show ?thesis
    by blast
qed

text \<open>
  Claim C6. For a legal move \<open>evaluate_move\<close> returns \<open>area - risk * 10\<close>: the area is what
  \<open>flood_fill\<close> returns from the destination on the seeded visited array, the size of the
  region of empty cells around the destination, and the risk is the number of the
  destination's four neighbours that are outside the grid or occupied. Hence of two legal
  moves with the same area, the one with \<open>k\<close> more blocked neighbours scores \<open>10 * k\<close> less.
\<close>

theorem evaluate_move_score:
  assumes "is_valid_move b d = Inr True"
  shows "evaluate_move b d = Inr (move_area b d - move_risk b d * 10)
         \<and> (\<exists>seed vis'. init_visited b = Inr seed
               \<and> flood_fill b (destination b d) seed = Inr (move_area b d, vis'))
         \<and> (\<forall>b' d' k. is_valid_move b' d' = Inr True \<and> move_area b' d' = move_area b d
                \<and> move_risk b' d' = move_risk b d + k
              \<longrightarrow> (\<exists>s. evaluate_move b d = Inr s \<and> evaluate_move b' d' = Inr (s - 10 * k)))"
proof (intro conjI allI impI)
  from assms have ok: "isInsideGrid (state b) (destination b d)"
    "grid (state b) (destination b d) = 0"
    by (simp_all add: is_valid_move_eq)
  then show ev: "evaluate_move b d = Inr (move_area b d - move_risk b d * 10)"
    by (simp add: evaluate_move_eq)
  from init_visited_spec [OF inside_dims [OF ok(1)]] obtain seed
    where s: "init_visited b = Inr seed" and wf: "wf_visited (state b) seed"
      and mk: "\<forall>p. marked seed p \<longleftrightarrow> isInsideGrid (state b) p \<and> grid (state b) p \<noteq> 0"
    by blast
  from flood_fill_correct [OF ok(1) wf] obtain vis'
    where "flood_fill b (destination b d) seed
             = Inr (int (card (region (state b) seed (destination b d))), vis')"
    by blast
  then have "flood_fill b (destination b d) seed = Inr (move_area b d, vis')"
    using region_seeded [OF mk] by (simp add: move_area_def)
  with s show "\<exists>seed vis'. init_visited b = Inr seed
               \<and> flood_fill b (destination b d) seed = Inr (move_area b d, vis')"
    by blast
  fix b' d' k
  assume h: "is_valid_move b' d' = Inr True \<and> move_area b' d' = move_area b d
                \<and> move_risk b' d' = move_risk b d + k"
  then have "evaluate_move b' d' = Inr (move_area b' d' - move_risk b' d' * 10)"
    by (simp add: evaluate_move_eq is_valid_move_eq)
  with h ev show "\<exists>s. evaluate_move b d = Inr s \<and> evaluate_move b' d' = Inr (s - 10 * k)"
    by (intro exI [of _ "move_area b d - move_risk b d * 10"]) (simp add: algebra_simps)
qed

theorem evaluate_move_score_witness:
  "evaluate_move (bot_at (open_grid 3 3) (1, 1)) north = Inr (- 1)
   \<and> move_area (bot_at (open_grid 3 3) (1, 1)) north = 9
   \<and> move_risk (bot_at (open_grid 3 3) (1, 1)) north = 1
   \<and> move_area (bot_at (open_grid 3 3) (0, 1)) north = 9
   \<and> move_risk (bot_at (open_grid 3 3) (0, 1)) north = 2
   \<and> evaluate_move (bot_at (open_grid 3 3) (0, 1)) north = Inr (- 11)"
proof -
  let ?b = "bot_at (open_grid 3 3) (1, 1)"
  let ?c = "bot_at (open_grid 3 3) (0, 1)"
  let ?seed = "[[False, False, False], [False, False, False], [False, False, False]]"
  let ?full = "[[True, True, True], [True, True, True], [True, True, True]]"
  have vb: "is_valid_move ?b north = Inr True" and vc: "is_valid_move ?c north = Inr True"
    by (simp_all add: eval_defs)
  have rb: "move_risk ?b north = 1"
    using count_risk_blocked [of ?b "(1, 0)"]
    by (simp add: move_risk_def destination_def eval_defs)
  have rc: "move_risk ?c north = 2"
    using count_risk_blocked [of ?c "(0, 0)"]
    by (simp add: move_risk_def destination_def eval_defs)
  have sb: "init_visited ?b = Inr ?seed" and sc: "init_visited ?c = Inr ?seed"
    by (simp_all add: eval_defs numeral_3_eq_3)
  have fb: "flood_fill ?b (1, 0) ?seed = Inr (9, ?full)"
    by (simp add: eval_defs)
  have fc: "flood_fill ?c (0, 0) ?seed = Inr (9, ?full)"
    by (simp add: eval_defs)
  have db: "destination ?b north = (1, 0)" and dc: "destination ?c north = (0, 0)"
    by (simp_all add: destination_def vadd_def)
  note tb = evaluate_move_score [OF vb]
  note tc = evaluate_move_score [OF vc]
  have ab: "move_area ?b north = 9" using tb sb fb db by auto
  have ac: "move_area ?c north = 9" using tc sc fc dc by auto
  have eb: "evaluate_move ?b north = Inr (- 1)" using tb ab rb by simp
  have "is_valid_move ?c north = Inr True \<and> move_area ?c north = move_area ?b north
          \<and> move_risk ?c north = move_risk ?b north + 1"
    using vc ab ac rb rc by simp
  with tb eb have "evaluate_move ?c north = Inr (- 1 - 10 * 1)" by fastforce
  with eb ab ac rb rc show ?thesis by simp
qed

text \<open>
  Claim C7. \<open>is_valid_move\<close> never fails and has no effect: for every bot (grid and
  position, a position outside the grid included) and every direction it returns a
  boolean, which is true exactly when the position displaced by the direction's vector is
  inside \<open>[0,W) x [0,H)\<close> and the grid's cell there is not occupied.
\<close>

theorem is_valid_move_total:
  "is_valid_move b d =
     Inr (isInsideGrid (state b) (vadd (position (my_player b)) (getDirectionVector d))
          \<and> grid (state b) (vadd (position (my_player b)) (getDirectionVector d)) = 0)"
  using is_valid_move_eq [of b d] by (simp add: destination_def)

theorem is_valid_move_total_witness:
  "is_valid_move (bot_at trail_grid (1, 1)) north = Inr True
   \<and> is_valid_move (bot_at trail_grid (1, 1)) west = Inr False
   \<and> is_valid_move (bot_at trail_grid (- 5, 7)) east = Inr False"
proof -
  have "is_valid_move (bot_at trail_grid (1, 1)) north = Inr True"
    by (subst is_valid_move_total) (simp add: eval_defs)
  moreover have "is_valid_move (bot_at trail_grid (1, 1)) west = Inr False"
    by (subst is_valid_move_total) (simp add: eval_defs)
  moreover have "is_valid_move (bot_at trail_grid (- 5, 7)) east = Inr False"
    by (subst is_valid_move_total) (simp add: eval_defs)
  ultimately show ?thesis by simp
qed

text \<open>
  Claim C8. The direction \<open>decide_move\<close> returns depends on the grid and on the bot's
  position only: two bots that agree on these get the same answer from \<open>is_valid_move\<close>,
  \<open>flood_fill\<close>, \<open>evaluate_move\<close> and \<open>decide_move\<close>, whatever their random generators
  (and names) are. The generator is never read.
\<close>

theorem decide_move_deterministic:
  assumes "state b1 = state b2" and "position (my_player b1) = position (my_player b2)"
  shows "decide_move b1 = decide_move b2
         \<and> evaluate_move b1 d = evaluate_move b2 d
         \<and> flood_fill b1 start vis = flood_fill b2 start vis
         \<and> is_valid_move b1 d = is_valid_move b2 d"
proof -
  have "decide_move b1 = decide_move b2"
    unfolding decide_move_def by (simp only: decide_loop_state [OF assms])
  then show ?thesis
    by (simp only: evaluate_move_state [OF assms] flood_fill_state [OF assms(1)]
        is_valid_move_state [OF assms])
qed

theorem decide_move_deterministic_witness:
  "rng (bot_at trail_grid (1, 1)) \<noteq> rng ((bot_at trail_grid (1, 1))\<lparr>rng := [5489, 1]\<rparr>)
   \<and> decide_move (bot_at trail_grid (1, 1))
       = decide_move ((bot_at trail_grid (1, 1))\<lparr>rng := [5489, 1]\<rparr>)"
proof -
  let ?b = "bot_at trail_grid (1, 1)"
  have 1: "state ?b = state (?b\<lparr>rng := [5489, 1]\<rparr>)" by simp
  have 2: "position (my_player ?b) = position (my_player (?b\<lparr>rng := [5489, 1]\<rparr>))" by simp
  have "rng ?b \<noteq> rng (?b\<lparr>rng := [5489, 1]\<rparr>)" by (simp add: bot_at_def)
  with decide_move_deterministic [OF 1 2] show ?thesis by simp
qed

text \<open>
  Claim C9. For a start cell inside the grid (and a visited array of the grid's
  dimensions), \<open>flood_fill\<close> returns an area of at least 1, whether or not the start cell
  is occupied or already marked: the start is pushed, marked and counted unchecked. The
  area is one, for the start, plus the number of other cells reached; the start is marked
  in the array that is left, and the cells marked there are those marked before and those
  reached.
\<close>

theorem flood_fill_at_least_one:
  assumes "isInsideGrid (state b) start" and "wf_visited (state b) vis"
  shows "\<exists>area vis'. flood_fill b start vis = Inr (area, vis') \<and> 1 \<le> area
           \<and> area = 1 + int (card (region (state b) vis start - {start}))
           \<and> marked vis' start
           \<and> (\<forall>p. marked vis' p \<longleftrightarrow> marked vis p \<or> p \<in> region (state b) vis start)"
proof -
  let ?R = "region (state b) vis start"
  have s: "start \<in> ?R" by (rule region_start)
  have fin: "finite ?R" by (rule finite_region)
  from fin s have "Suc (card (?R - {start})) = card ?R"
    by (rule card_Suc_Diff1)
  then have "card ?R = Suc (card (?R - {start}))" by (rule sym)
  then have c: "int (card ?R) = 1 + int (card (?R - {start}))" by simp
  from flood_fill_correct [OF assms] obtain vis'
    where ff: "flood_fill b start vis = Inr (int (card ?R), vis')"
      and mk: "\<forall>p. marked vis' p \<longleftrightarrow> marked vis p \<or> p \<in> ?R"
    by blast
  from mk s have "marked vis' start" by blast
  with ff mk c show ?thesis by auto
qed

theorem flood_fill_at_least_one_witness:
  "grid trail_grid (1, 1) \<noteq> 0 \<and> \<not> marked blank_visited (1, 1)
   \<and> flood_fill (bot_at trail_grid (1, 1)) (1, 1) blank_visited
       = Inr (8, [[True, False, True], [True, True, True], [True, True, True]])
   \<and> marked [[True, False, True], [True, True, True], [True, True, True]] (1, 1)
   \<and> card (region trail_grid blank_visited (1, 1) - {(1, 1)}) = 7
   \<and> marked trail_visited (1, 1)
   \<and> flood_fill (bot_at trail_grid (1, 1)) (1, 1) trail_visited
       = Inr (8, [[True, True, True], [True, True, True], [True, True, True]])
   \<and> card (region trail_grid trail_visited (1, 1) - {(1, 1)}) = 7"
proof -
  let ?b = "bot_at trail_grid (1, 1)"
  have ins: "isInsideGrid (state ?b) (1, 1)"
    by (simp add: eval_defs)
  have wf1: "wf_visited (state ?b) blank_visited"
    by (simp add: blank_visited_def eval_defs)
  have wf2: "wf_visited (state ?b) trail_visited"
    by (simp add: eval_defs)
  have occ: "grid trail_grid (1, 1) \<noteq> 0" and un: "\<not> marked blank_visited (1, 1)"
    and pre: "marked trail_visited (1, 1)"
    by (simp_all add: blank_visited_def eval_defs)
  have e1: "flood_fill ?b (1, 1) blank_visited
              = Inr (8, [[True, False, True], [True, True, True], [True, True, True]])"
    by (simp add: blank_visited_def eval_defs)
  have e2: "flood_fill ?b (1, 1) trail_visited
              = Inr (8, [[True, True, True], [True, True, True], [True, True, True]])"
    by (simp add: eval_defs)
  from flood_fill_at_least_one [OF ins wf1] e1
  have r1: "marked [[True, False, True], [True, True, True], [True, True, True]] (1, 1)
            \<and> card (region trail_grid blank_visited (1, 1) - {(1, 1)}) = 7"
    by auto
  from flood_fill_at_least_one [OF ins wf2] e2
  have r2: "card (region trail_grid trail_visited (1, 1) - {(1, 1)}) = 7"
    by auto
  from occ un pre e1 e2 r1 r2 show ?thesis by simp
qed

text \<open>
  Claim C10. When the start cell is inside the grid and the visited array has the grid's
  dimensions, no access of \<open>flood_fill\<close> to the visited array or to the grid is out of
  bounds: the call does not end in an error.
\<close>

theorem flood_fill_in_bounds:
  assumes "isInsideGrid (state b) start" and "wf_visited (state b) vis"
  shows "\<forall>e. flood_fill b start vis \<noteq> Inl e"
  using flood_fill_correct [OF assms] by auto

theorem flood_fill_in_bounds_witness:
  "flood_fill (bot_at trail_grid (1, 1)) (1, 0) trail_visited \<noteq> Inl OutOfBounds"
proof -
  have "isInsideGrid (state (bot_at trail_grid (1, 1))) (1, 0)"
    by (simp add: eval_defs)
  moreover have "wf_visited (state (bot_at trail_grid (1, 1))) trail_visited"
    by (simp add: eval_defs)
  ultimately show ?thesis using flood_fill_in_bounds by blast
qed

end
